theory Spec2Isabelle
  imports Main
begin

section \<open>Data model of the lineage-flow provider\<close>

text \<open>
  The provider (\<^verbatim>\<open>LineageFlowProvider\<close> in \<^verbatim>\<open>Page.tsx\<close>) keeps its state in React state
  slots. The slots \<^verbatim>\<open>activeEdges\<close> and \<^verbatim>\<open>connections\<close> hold references to JavaScript
  \<^verbatim>\<open>Map\<close> objects, and the values of the first map are references to arrays of pairs.
  The mutators call \<^verbatim>\<open>set\<close>, \<^verbatim>\<open>delete\<close> and \<^verbatim>\<open>push\<close> on these objects, so objects live
  in an explicit store and the state slots hold addresses.
\<close>

type_synonym connector = string
type_synonym edge = "connector \<times> connector"
type_synonym addr = nat

text \<open>\<^verbatim>\<open>interface Connections { left: string[]; right: string[] }\<close> as a pair (left, right).\<close>

type_synonym Connections = "string list \<times> string list"

datatype EnumSide = Left | Right

record heap =
  arrays :: "addr \<Rightarrow> edge list"
  edgeMaps :: "addr \<Rightarrow> (connector \<rightharpoonup> addr)"
  connMaps :: "addr \<Rightarrow> (string \<rightharpoonup> Connections)"
  nxt :: addr

record state =
  store :: heap
  activeEdges :: addr
  connections :: addr

subsection \<open>Object operations\<close>

text \<open>An array literal or the result of \<^verbatim>\<open>filter\<close>: a new array object.\<close>

definition new_Array :: "edge list \<Rightarrow> heap \<Rightarrow> addr \<times> heap" where
  "new_Array v h = (nxt h, h\<lparr>arrays := (arrays h)(nxt h := v), nxt := Suc (nxt h)\<rparr>)"

text \<open>\<^verbatim>\<open>arr.push(e)\<close>: the array object is extended in place.\<close>

definition push :: "addr \<Rightarrow> edge \<Rightarrow> heap \<Rightarrow> heap" where
  "push a e h = h\<lparr>arrays := (arrays h)(a := arrays h a @ [e])\<rparr>"

text \<open>\<^verbatim>\<open>activeEdges.set(k, a)\<close>: the map object is updated in place.\<close>

definition map_set :: "addr \<Rightarrow> connector \<Rightarrow> addr \<Rightarrow> heap \<Rightarrow> heap" where
  "map_set m k a h = h\<lparr>edgeMaps := (edgeMaps h)(m := (edgeMaps h m)(k \<mapsto> a))\<rparr>"

text \<open>\<^verbatim>\<open>new Map(activeEdges)\<close>: a new map object with the same entries (the arrays are shared).\<close>

definition new_Map :: "addr \<Rightarrow> heap \<Rightarrow> addr \<times> heap" where
  "new_Map m h = (nxt h, h\<lparr>edgeMaps := (edgeMaps h)(nxt h := edgeMaps h m), nxt := Suc (nxt h)\<rparr>)"

text \<open>\<^verbatim>\<open>connections.delete(k)\<close>, in place.\<close>

definition conn_delete :: "addr \<Rightarrow> string \<Rightarrow> heap \<Rightarrow> heap" where
  "conn_delete c k h = h\<lparr>connMaps := (connMaps h)(c := (connMaps h c)(k := None))\<rparr>"

text \<open>\<^verbatim>\<open>new Map(connections)\<close>.\<close>

definition new_ConnMap :: "addr \<Rightarrow> heap \<Rightarrow> addr \<times> heap" where
  "new_ConnMap c h = (nxt h, h\<lparr>connMaps := (connMaps h)(nxt h := connMaps h c), nxt := Suc (nxt h)\<rparr>)"

text \<open>\<^verbatim>\<open>activeEdges.get(k) ?? []\<close>: the array stored under the key, or a new empty array.\<close>

definition get_or_empty :: "addr \<Rightarrow> connector \<Rightarrow> heap \<Rightarrow> addr \<times> heap" where
  "get_or_empty m k h = (case edgeMaps h m k of Some a \<Rightarrow> (a, h) | None \<Rightarrow> new_Array [] h)"

text \<open>
  Modelled from the spec: \<^verbatim>\<open>isFalse\<close> is imported from \<^verbatim>\<open>@utils/index\<close>, which is not among the
  sources. The spec has the pair appended "unless an identical pair already exists in that
  key's list", so on the boolean it receives \<^verbatim>\<open>isFalse\<close> is negation.
\<close>

definition isFalse :: "bool \<Rightarrow> bool" where
  "isFalse b = (\<not> b)"

subsection \<open>The mutators\<close>

text \<open>The callback of \<^verbatim>\<open>edges.forEach\<close> in \<^verbatim>\<open>addActiveEdges\<close>, on the map object \<open>m\<close>.\<close>

definition addEdge :: "addr \<Rightarrow> edge \<Rightarrow> heap \<Rightarrow> heap" where
  "addEdge m e h =
    (case e of (leftConnect, rightConnect) \<Rightarrow>
      (case get_or_empty m leftConnect h of (left, h1) \<Rightarrow>
      (case get_or_empty m rightConnect h1 of (right, h2) \<Rightarrow>
        let hasDuplicateLeft =
              list_ex (\<lambda>(l, r). l = leftConnect \<and> r = rightConnect) (arrays h2 left);
            hasDuplicateRight =
              list_ex (\<lambda>(l, r). l = leftConnect \<and> r = rightConnect) (arrays h2 right);
            h3 = (if isFalse hasDuplicateLeft then push left (leftConnect, rightConnect) h2 else h2);
            h4 = (if isFalse hasDuplicateRight then push right (leftConnect, rightConnect) h3 else h3);
            h5 = map_set m leftConnect left h4
        in map_set m rightConnect right h5)))"

definition addActiveEdges :: "edge list \<Rightarrow> state \<Rightarrow> state" where
  "addActiveEdges edges st =
    (let h1 = fold (addEdge (activeEdges st)) edges (store st)
     in case new_Map (activeEdges st) h1 of (m', h2) \<Rightarrow>
          st\<lparr>store := h2, activeEdges := m'\<rparr>)"

text \<open>
  The callback of the first \<^verbatim>\<open>edges.forEach\<close> in \<^verbatim>\<open>removeActiveEdges\<close>. The literal \<^verbatim>\<open>[]\<close> of
  \<^verbatim>\<open>?? []\<close> is only read by \<^verbatim>\<open>filter\<close>, so the list under a key is read as a value; each
  \<^verbatim>\<open>filter\<close> returns a new array. Both lists are filtered before either key is set.
\<close>

definition list_at :: "heap \<Rightarrow> addr \<Rightarrow> connector \<Rightarrow> edge list" where
  "list_at h m k = (case edgeMaps h m k of Some a \<Rightarrow> arrays h a | None \<Rightarrow> [])"

definition removeEdge :: "addr \<Rightarrow> edge \<Rightarrow> heap \<Rightarrow> heap" where
  "removeEdge m e h =
    (case e of (left, right) \<Rightarrow>
      (case new_Array (filter (\<lambda>e. fst e \<noteq> left \<and> snd e \<noteq> right) (list_at h m left)) h
       of (edgesLeft, h1) \<Rightarrow>
      (case new_Array (filter (\<lambda>e. fst e \<noteq> left \<and> snd e \<noteq> right) (list_at h1 m right)) h1
       of (edgesRight, h2) \<Rightarrow>
        map_set m right edgesRight (map_set m left edgesLeft h2))))"

text \<open>The callback of the second \<^verbatim>\<open>edges.forEach\<close>, on the connections map \<open>c\<close>.\<close>

definition removeConn :: "addr \<Rightarrow> edge \<Rightarrow> heap \<Rightarrow> heap" where
  "removeConn c e h = (case e of (left, right) \<Rightarrow> conn_delete c right (conn_delete c left h))"

definition removeActiveEdges :: "edge list \<Rightarrow> state \<Rightarrow> state" where
  "removeActiveEdges edges st =
    (let h1 = fold (removeEdge (activeEdges st)) edges (store st)
     in case new_Map (activeEdges st) h1 of (m', h2) \<Rightarrow>
        (let h3 = fold (removeConn (connections st)) edges h2
         in case new_ConnMap (connections st) h3 of (c', h4) \<Rightarrow>
              st\<lparr>store := h4, activeEdges := m', connections := c'\<rparr>))"

text \<open>The state when the provider mounts: two empty maps.\<close>

definition init_heap :: heap where
  "init_heap = \<lparr>arrays = (\<lambda>_. []), edgeMaps = (\<lambda>_. Map.empty), connMaps = (\<lambda>_. Map.empty),
     nxt = 2\<rparr>"

definition init_state :: state where
  "init_state = \<lparr>store = init_heap, activeEdges = 0, connections = 1\<rparr>"

subsection \<open>What a reader sees\<close>

text \<open>The contents of the map object \<open>m\<close>: each key with the list stored under it.\<close>

definition index_at :: "heap \<Rightarrow> addr \<Rightarrow> (connector \<rightharpoonup> edge list)" where
  "index_at h m = (\<lambda>k. map_option (arrays h) (edgeMaps h m k))"

definition index_of :: "state \<Rightarrow> (connector \<rightharpoonup> edge list)" where
  "index_of st = index_at (store st) (activeEdges st)"

definition connections_of :: "state \<Rightarrow> (string \<rightharpoonup> Connections)" where
  "connections_of st = connMaps (store st) (connections st)"

text \<open>
  Modelled from the spec: \<^verbatim>\<open>hasActiveEdgeConnector\<close> is imported from \<^verbatim>\<open>./help\<close>, which is not
  among the sources. The spec: "returns true if the connector has at least one incident edge".
\<close>

definition hasActiveEdgeConnector :: "(connector \<rightharpoonup> edge list) \<Rightarrow> connector \<Rightarrow> bool" where
  "hasActiveEdgeConnector idx c = (case idx c of None \<Rightarrow> False | Some es \<Rightarrow> es \<noteq> [])"

text \<open>
  Modelled from the spec: \<^verbatim>\<open>hasActiveEdge\<close> is imported from \<^verbatim>\<open>./help\<close>, which is not among the
  sources. The spec: "returns true if the exact pair (in either stored orientation) exists
  under either endpoint's list". Both endpoints are strings here; the \<^verbatim>\<open>Maybe\<close> of the
  source's parameter type is not modelled.
\<close>

definition stored_under :: "(connector \<rightharpoonup> edge list) \<Rightarrow> connector \<Rightarrow> edge \<Rightarrow> bool" where
  "stored_under idx k e = (case idx k of None \<Rightarrow> False | Some es \<Rightarrow> e \<in> set es)"

definition hasActiveEdge :: "(connector \<rightharpoonup> edge list) \<Rightarrow> edge \<Rightarrow> bool" where
  "hasActiveEdge idx e =
    (case e of (l, r) \<Rightarrow>
      stored_under idx l (l, r) \<or> stored_under idx l (r, l) \<or>
      stored_under idx r (l, r) \<or> stored_under idx r (r, l))"

definition checkActiveEdge :: "state \<Rightarrow> edge \<Rightarrow> bool" where
  "checkActiveEdge st e = hasActiveEdge (index_of st) e"

text \<open>
  \<^verbatim>\<open>isActiveColumn\<close>. The encoding \<^verbatim>\<open>toID\<close> of \<^verbatim>\<open>@utils/index\<close> is not among the sources and is
  a parameter.
\<close>

definition isActiveColumn ::
  "(EnumSide \<Rightarrow> string \<Rightarrow> string \<Rightarrow> connector) \<Rightarrow> state \<Rightarrow> string \<Rightarrow> string \<Rightarrow> bool" where
  "isActiveColumn toID st modelName columnName =
    (let leftConnector = toID Left modelName columnName;
         rightConnector = toID Right modelName columnName
     in hasActiveEdgeConnector (index_of st) leftConnector \<or>
        hasActiveEdgeConnector (index_of st) rightConnector)"

subsection \<open>Sequences of mutations\<close>

datatype mutation = AddActiveEdges "edge list" | RemoveActiveEdges "edge list"

fun mutate :: "mutation \<Rightarrow> state \<Rightarrow> state" where
  "mutate (AddActiveEdges edges) st = addActiveEdges edges st"
| "mutate (RemoveActiveEdges edges) st = removeActiveEdges edges st"

definition run :: "mutation list \<Rightarrow> state \<Rightarrow> state" where
  "run ms st = fold mutate ms st"

text \<open>The connectors that occur as an endpoint of a pair of a batch.\<close>

definition endpoints :: "edge list \<Rightarrow> connector set" where
  "endpoints edges = fst ` set edges \<union> snd ` set edges"

fun added_edges :: "mutation \<Rightarrow> edge list" where
  "added_edges (AddActiveEdges edges) = edges"
| "added_edges (RemoveActiveEdges edges) = []"

subsection \<open>The selected-edges view\<close>

text \<open>
  \<^verbatim>\<open>Array.from(selectedNodes).map(id => nodesConnections[id]!).flat()\<close>. The type
  \<^verbatim>\<open>ConnectedNode\<close> of \<^verbatim>\<open>~/workers/lineage\<close> is not among the sources, so a value is a
  JavaScript value: \<^verbatim>\<open>undefined\<close>, an array of values, a member inherited from
  \<^verbatim>\<open>Object.prototype\<close>, or any other object (of a type parameter; with the declared types
  \<^verbatim>\<open>Record<string, ConnectedNode>\<close> and \<^verbatim>\<open>selectedEdges: ConnectedNode[]\<close> a stored value is such
  an object, a single record). A \<^verbatim>\<open>Set\<close> iterates in insertion order without repetition, so
  \<^verbatim>\<open>Array.from(selectedNodes)\<close> is a list of the selected ids without repetition.
\<close>

datatype 'a jsval = JSUndefined | JSObject 'a | JSArray "'a jsval list" | JSInherited string

text \<open>
  \<^verbatim>\<open>nodesConnections\<close> is a plain object (\<^verbatim>\<open>useState<Record<string, ConnectedNode>>({})\<close>), so a
  property that is not a key of the record itself is looked up in \<^verbatim>\<open>Object.prototype\<close>. These
  are the property names of \<^verbatim>\<open>Object.prototype\<close>.
\<close>

definition Object_prototype :: "string list" where
  "Object_prototype =
     [''constructor'', ''__defineGetter__'', ''__defineSetter__'', ''hasOwnProperty'',
      ''__lookupGetter__'', ''__lookupSetter__'', ''isPrototypeOf'', ''propertyIsEnumerable'',
      ''toString'', ''valueOf'', ''__proto__'', ''toLocaleString'']"

text \<open>\<^verbatim>\<open>Array.prototype.flat()\<close> with its default depth 1: an element that is an array is
  replaced by its elements, any other element is kept.\<close>

fun flat :: "'a jsval list \<Rightarrow> 'a jsval list" where
  "flat [] = []"
| "flat (JSArray xs # vs) = xs @ flat vs"
| "flat (v # vs) = v # flat vs"

text \<open>
  \<^verbatim>\<open>nodesConnections[id]!\<close>: the value under a key of the record itself; otherwise the member
  of \<^verbatim>\<open>Object.prototype\<close> of that name; otherwise \<^verbatim>\<open>undefined\<close>. The non-null assertion \<^verbatim>\<open>!\<close>
  is erased at run time.
\<close>

definition lookup :: "(string \<rightharpoonup> 'a jsval) \<Rightarrow> string \<Rightarrow> 'a jsval" where
  "lookup nodesConnections ident =
     (case nodesConnections ident of
        Some v \<Rightarrow> v
      | None \<Rightarrow> if ident \<in> set Object_prototype then JSInherited ident else JSUndefined)"

definition selectedEdges :: "string list \<Rightarrow> (string \<rightharpoonup> 'a jsval) \<Rightarrow> 'a jsval list" where
  "selectedEdges selectedNodes nodesConnections =
     flat (map (\<lambda>ident. lookup nodesConnections ident) selectedNodes)"

text \<open>
  In the words of the specification: the value stored for a node is its list of incident
  edges. A value that is not a list has no such list.
\<close>

definition incident :: "(string \<rightharpoonup> 'a jsval) \<Rightarrow> string \<Rightarrow> 'a jsval list" where
  "incident nodesConnections ident =
     (case nodesConnections ident of Some (JSArray xs) \<Rightarrow> xs | _ \<Rightarrow> [])"

text \<open>
  What the value stored under a key of the record contributes to the flattened sequence:
  its elements when it is an array, itself otherwise.
\<close>

definition contribution :: "(string \<rightharpoonup> 'a jsval) \<Rightarrow> string \<Rightarrow> 'a jsval list" where
  "contribution nodesConnections ident =
     (case nodesConnections ident of
        None \<Rightarrow> []
      | Some (JSArray xs) \<Rightarrow> xs
      | Some v \<Rightarrow> [v])"

section \<open>Specification-level notions\<close>

text \<open>
  Every array referenced by the map object \<open>m\<close> has been allocated. This holds of every
  store a running program can have: a reference is only obtained from an allocation.
\<close>

definition arrs_bounded :: "addr \<Rightarrow> heap \<Rightarrow> bool" where
  "arrs_bounded m h = (\<forall>k a. edgeMaps h m k = Some a \<longrightarrow> a < nxt h)"

definition wf_state :: "state \<Rightarrow> bool" where
  "wf_state st =
     (activeEdges st < nxt (store st) \<and> connections st < nxt (store st) \<and>
      arrs_bounded (activeEdges st) (store st))"

text \<open>Different keys of the map object \<open>m\<close> hold different array objects.\<close>

definition separate :: "addr \<Rightarrow> heap \<Rightarrow> bool" where
  "separate m h =
     (\<forall>k1 k2 a. edgeMaps h m k1 = Some a \<longrightarrow> edgeMaps h m k2 = Some a \<longrightarrow> k1 = k2)"

text \<open>The effect of one step of removal on the contents of the map.\<close>

definition remove_view :: "edge \<Rightarrow> (connector \<rightharpoonup> edge list) \<Rightarrow> (connector \<rightharpoonup> edge list)" where
  "remove_view e idx =
    (case e of (l, r) \<Rightarrow>
       idx(l \<mapsto> filter (\<lambda>e. fst e \<noteq> l \<and> snd e \<noteq> r) (case idx l of None \<Rightarrow> [] | Some es \<Rightarrow> es),
           r \<mapsto> filter (\<lambda>e. fst e \<noteq> l \<and> snd e \<noteq> r) (case idx r of None \<Rightarrow> [] | Some es \<Rightarrow> es)))"

text \<open>The list read under a key (empty when the key is absent), and what one pair of a
  removal batch does to the list of the key \<open>k\<close>: it is filtered when \<open>k\<close> is an endpoint of
  the pair.\<close>

definition list_of :: "(connector \<rightharpoonup> edge list) \<Rightarrow> connector \<Rightarrow> edge list" where
  "list_of idx k = (case idx k of None \<Rightarrow> [] | Some es \<Rightarrow> es)"

definition filter_for :: "connector \<Rightarrow> edge \<Rightarrow> edge list \<Rightarrow> edge list" where
  "filter_for k e es =
     (if k = fst e \<or> k = snd e then filter (\<lambda>x. fst x \<noteq> fst e \<and> snd x \<noteq> snd e) es else es)"

text \<open>The pair \<open>e\<close> is stored under both of its endpoints in the map object \<open>m\<close>.\<close>

definition present :: "addr \<Rightarrow> heap \<Rightarrow> edge \<Rightarrow> bool" where
  "present m h e =
    (\<exists>al ar. edgeMaps h m (fst e) = Some al \<and> edgeMaps h m (snd e) = Some ar \<and>
             e \<in> set (arrays h al) \<and> e \<in> set (arrays h ar))"

text \<open>From \<open>h\<close> to \<open>h'\<close> the map object \<open>m\<close> keeps its bindings and their arrays keep
  their elements.\<close>

definition grows :: "addr \<Rightarrow> heap \<Rightarrow> heap \<Rightarrow> bool" where
  "grows m h h' =
    (\<forall>k a. edgeMaps h m k = Some a \<longrightarrow>
        edgeMaps h' m k = Some a \<and> set (arrays h a) \<subseteq> set (arrays h' a))"

text \<open>A state whose connections cache has entries, for evaluating removal.\<close>

definition cached_state :: state where
  "cached_state =
     init_state\<lparr>store := init_heap\<lparr>connMaps :=
        (\<lambda>_. [''a'' \<mapsto> ([], [''b'']), ''b'' \<mapsto> ([''a''], []), ''z'' \<mapsto> ([], [])])\<rparr>\<rparr>"

text \<open>An encoding of connectors for the examples: side, model and column joined by a
  separator.\<close>

definition sample_toID :: "EnumSide \<Rightarrow> string \<Rightarrow> string \<Rightarrow> connector" where
  "sample_toID side modelName columnName =
     (case side of Left \<Rightarrow> ''left'' | Right \<Rightarrow> ''right'') @ ''__'' @ modelName @ ''__'' @ columnName"

text \<open>What holds of every state the mutators reach from the initial one.\<close>

definition reachable_inv :: "state \<Rightarrow> bool" where
  "reachable_inv st = (wf_state st \<and> separate (activeEdges st) (store st))"

section \<open>Removal on the contents of the map\<close>

lemma bounded_fresh:
  "arrs_bounded m h \<Longrightarrow> edgeMaps h m k = Some a \<Longrightarrow> a \<noteq> nxt h \<and> a \<noteq> Suc (nxt h)"
  by (fastforce simp: arrs_bounded_def)

lemma removeEdge_bounded:
  "arrs_bounded m h \<Longrightarrow> arrs_bounded m (removeEdge m e h)"
  by (cases e) (auto simp: arrs_bounded_def removeEdge_def new_Array_def map_set_def less_Suc_eq)

lemma removeEdge_index:
  assumes "arrs_bounded m h"
  shows "index_at (removeEdge m e h) m = remove_view e (index_at h m)"
proof (rule ext)
  fix k
  obtain l r where e: "e = (l, r)" by (cases e)
  note fresh = bounded_fresh[OF assms]
  show "index_at (removeEdge m e h) m k = remove_view e (index_at h m) k"
  proof (cases "edgeMaps h m k")
    case None
    then show ?thesis
      by (auto simp: e removeEdge_def remove_view_def new_Array_def map_set_def index_at_def
            list_at_def dest: fresh split: option.splits)
  next
    case (Some a)
    with fresh[OF Some] show ?thesis
      by (auto simp: e removeEdge_def remove_view_def new_Array_def map_set_def index_at_def
            list_at_def dest: fresh split: option.splits)
  qed
qed

lemma fold_removeEdge_bounded:
  "arrs_bounded m h \<Longrightarrow> arrs_bounded m (fold (removeEdge m) es h)"
  by (induction es arbitrary: h) (simp_all add: removeEdge_bounded)

lemma fold_removeEdge_index:
  "arrs_bounded m h \<Longrightarrow>
   index_at (fold (removeEdge m) es h) m = fold remove_view es (index_at h m)"
  by (induction es arbitrary: h) (simp_all add: removeEdge_bounded removeEdge_index)

lemma removeConn_frame:
  "arrays (removeConn c e h) = arrays h \<and> edgeMaps (removeConn c e h) = edgeMaps h \<and>
   nxt (removeConn c e h) = nxt h"
  by (cases e) (simp add: removeConn_def conn_delete_def)

lemma fold_removeConn_frame:
  "arrays (fold (removeConn c) es h) = arrays h \<and>
   edgeMaps (fold (removeConn c) es h) = edgeMaps h \<and>
   nxt (fold (removeConn c) es h) = nxt h"
  by (induction es arbitrary: h) (simp_all add: removeConn_frame)

lemma index_of_removeActiveEdges_fold:
  "index_of (removeActiveEdges es st) =
   index_at (fold (removeEdge (activeEdges st)) es (store st)) (activeEdges st)"
  by (simp add: index_of_def removeActiveEdges_def Let_def new_Map_def new_ConnMap_def
        index_at_def fold_removeConn_frame split: prod.splits)

lemma index_of_removeActiveEdges:
  assumes "wf_state st"
  shows "index_of (removeActiveEdges es st) = fold remove_view es (index_of st)"
proof -
  have "arrs_bounded (activeEdges st) (store st)"
    using assms by (simp add: wf_state_def)
  then show ?thesis
    unfolding index_of_removeActiveEdges_fold
    by (simp add: fold_removeEdge_index index_of_def)
qed

lemma remove_view_dom: "dom (remove_view e idx) = insert (fst e) (insert (snd e) (dom idx))"
  by (cases e) (auto simp: remove_view_def)

lemma fold_remove_view_dom: "dom (fold remove_view es idx) = endpoints es \<union> dom idx"
  by (induction es arbitrary: idx) (auto simp: remove_view_dom endpoints_def)

lemma remove_view_other: "k \<noteq> fst e \<Longrightarrow> k \<noteq> snd e \<Longrightarrow> remove_view e idx k = idx k"
  by (cases e) (auto simp: remove_view_def)

lemma fold_remove_view_other: "k \<notin> endpoints es \<Longrightarrow> fold remove_view es idx k = idx k"
  by (induction es arbitrary: idx) (auto simp: remove_view_other endpoints_def)

lemma remove_view_list:
  "list_of (remove_view e idx) k = filter_for k e (list_of idx k)"
  by (cases e) (auto simp: remove_view_def list_of_def filter_for_def)

lemma fold_remove_view_list:
  "list_of (fold remove_view es idx) k = fold (filter_for k) es (list_of idx k)"
  by (induction es arbitrary: idx) (simp_all add: remove_view_list)

lemma list_of_dom: "k \<in> dom idx \<Longrightarrow> idx k = Some (list_of idx k)"
  by (auto simp: list_of_def)

section \<open>Insertion\<close>

lemma list_ex_pair: "list_ex (\<lambda>(x, y). x = l \<and> y = r) xs \<longleftrightarrow> (l, r) \<in> set xs"
  by (induction xs) auto

lemma addEdge_present_noop:
  assumes "present m h e"
  shows "addEdge m e h = h"
proof -
  obtain l r where e: "e = (l, r)" by (cases e)
  from assms obtain al ar where
    k: "edgeMaps h m l = Some al" "edgeMaps h m r = Some ar"
    and i: "(l, r) \<in> set (arrays h al)" "(l, r) \<in> set (arrays h ar)"
    by (auto simp: present_def e)
  have "(edgeMaps h m)(l \<mapsto> al, r \<mapsto> ar) = edgeMaps h m"
    using k by (auto simp: fun_eq_iff)
  then show ?thesis
    using k i
    by (simp add: e addEdge_def get_or_empty_def list_ex_pair isFalse_def map_set_def)
qed

lemma addEdge_bounded:
  "arrs_bounded m h \<Longrightarrow> arrs_bounded m (addEdge m e h)"
  by (cases e)
     (auto simp: arrs_bounded_def addEdge_def get_or_empty_def new_Array_def push_def
        map_set_def Let_def less_Suc_eq split: option.splits)

lemma addEdge_nxt: "nxt h \<le> nxt (addEdge m e h)"
  by (cases e)
     (auto simp: addEdge_def get_or_empty_def new_Array_def push_def
        map_set_def Let_def split: option.splits)

lemma addEdge_grows:
  assumes "arrs_bounded m h"
  shows "grows m h (addEdge m e h)"
proof -
  obtain l r where e: "e = (l, r)" by (cases e)
  note fresh = bounded_fresh[OF assms]
  show ?thesis
    unfolding grows_def
  proof (intro allI impI)
    fix k a
    assume ka: "edgeMaps h m k = Some a"
    from fresh[OF ka]
    show "edgeMaps (addEdge m e h) m k = Some a \<and>
          set (arrays h a) \<subseteq> set (arrays (addEdge m e h) a)"
      using ka
      by (auto simp: e addEdge_def get_or_empty_def new_Array_def push_def
          map_set_def Let_def split: option.splits)
  qed
qed

lemma addEdge_present: "present m (addEdge m e h) e"
  by (cases e)
     (auto simp: present_def addEdge_def get_or_empty_def new_Array_def push_def
        map_set_def Let_def list_ex_pair isFalse_def split: option.splits if_splits)

lemma grows_present: "grows m h h' \<Longrightarrow> present m h e \<Longrightarrow> present m h' e"
  by (fastforce simp: grows_def present_def)

lemma fold_addEdge_bounded:
  "arrs_bounded m h \<Longrightarrow> arrs_bounded m (fold (addEdge m) es h)"
  by (induction es arbitrary: h) (simp_all add: addEdge_bounded)

lemma fold_addEdge_nxt: "nxt h \<le> nxt (fold (addEdge m) es h)"
proof (induction es arbitrary: h)
  case Nil
  show ?case by simp
next
  case (Cons e es)
  have "nxt h \<le> nxt (addEdge m e h)" by (rule addEdge_nxt)
  also have "\<dots> \<le> nxt (fold (addEdge m) es (addEdge m e h))" by (rule Cons.IH)
  finally show ?case by simp
qed

lemma fold_addEdge_keeps:
  "arrs_bounded m h \<Longrightarrow> present m h e \<Longrightarrow> present m (fold (addEdge m) es h) e"
proof (induction es arbitrary: h)
  case Nil
  then show ?case by simp
next
  case (Cons x es)
  from Cons.prems have "present m (addEdge m x h) e"
    by (blast intro: grows_present addEdge_grows)
  with Cons.prems(1) show ?case
    by (simp add: Cons.IH addEdge_bounded)
qed

lemma fold_addEdge_present:
  "arrs_bounded m h \<Longrightarrow> e \<in> set es \<Longrightarrow> present m (fold (addEdge m) es h) e"
proof (induction es arbitrary: h)
  case Nil
  then show ?case by simp
next
  case (Cons x es)
  show ?case
  proof (cases "e = x")
    case True
    have "present m (addEdge m x h) x" by (rule addEdge_present)
    then show ?thesis
      using Cons.prems(1) True by (simp add: fold_addEdge_keeps addEdge_bounded)
  next
    case False
    with Cons.prems have "e \<in> set es" by simp
    then show ?thesis
      using Cons.prems(1) by (simp add: Cons.IH addEdge_bounded)
  qed
qed

lemma fold_addEdge_noop:
  "(\<And>e. e \<in> set es \<Longrightarrow> present m h e) \<Longrightarrow> fold (addEdge m) es h = h"
  by (induction es) (simp_all add: addEdge_present_noop)

lemma present_new_Map:
  "present (fst (new_Map m h)) (snd (new_Map m h)) e = present m h e"
  by (simp add: present_def new_Map_def)

lemma index_at_new_Map:
  "index_at (snd (new_Map m h)) (fst (new_Map m h)) = index_at h m"
  by (simp add: index_at_def new_Map_def)

lemma index_at_new_Map_old:
  "m < nxt h \<Longrightarrow> index_at (snd (new_Map m h)) m = index_at h m"
  by (simp add: index_at_def new_Map_def)

lemma addActiveEdges_unfold:
  "addActiveEdges es st =
     st\<lparr>store := snd (new_Map (activeEdges st) (fold (addEdge (activeEdges st)) es (store st))),
        activeEdges := fst (new_Map (activeEdges st) (fold (addEdge (activeEdges st)) es (store st)))\<rparr>"
  by (simp add: addActiveEdges_def Let_def split: prod.splits)

lemma index_of_addActiveEdges:
  "index_of (addActiveEdges es st) =
   index_at (fold (addEdge (activeEdges st)) es (store st)) (activeEdges st)"
  by (simp add: index_of_def addActiveEdges_unfold index_at_new_Map)

text \<open>The definitions a concrete run unfolds.\<close>

lemmas eval_defs = addActiveEdges_def removeActiveEdges_def addEdge_def removeEdge_def
  removeConn_def get_or_empty_def new_Array_def push_def map_set_def new_Map_def conn_delete_def
  new_ConnMap_def isFalse_def list_at_def init_state_def init_heap_def index_of_def index_at_def
  connections_of_def

lemmas query_defs = hasActiveEdgeConnector_def hasActiveEdge_def stored_under_def
  checkActiveEdge_def isActiveColumn_def sample_toID_def run_def endpoints_def

lemma wf_init: "wf_state init_state"
  by (simp add: wf_state_def arrs_bounded_def init_state_def init_heap_def)

section \<open>Idempotent insertion\<close>

lemma addActiveEdges_twice:
  assumes "wf_state st"
  shows "index_of (addActiveEdges es (addActiveEdges es st)) = index_of (addActiveEdges es st)"
proof -
  define m where "m = activeEdges st"
  define H where "H = fold (addEdge m) es (store st)"
  define m1 where "m1 = fst (new_Map m H)"
  define h2 where "h2 = snd (new_Map m H)"
  have b: "arrs_bounded m (store st)"
    using assms by (simp add: wf_state_def m_def)
  have st1: "activeEdges (addActiveEdges es st) = m1" "store (addActiveEdges es st) = h2"
    by (simp_all add: addActiveEdges_unfold m1_def h2_def H_def m_def)
  have "\<And>e. e \<in> set es \<Longrightarrow> present m1 h2 e"
    unfolding m1_def h2_def present_new_Map H_def
    by (rule fold_addEdge_present[OF b])
  then have "fold (addEdge m1) es h2 = h2"
    by (rule fold_addEdge_noop)
  then have "index_of (addActiveEdges es (addActiveEdges es st)) = index_at h2 m1"
    by (simp add: index_of_addActiveEdges st1)
  also have "\<dots> = index_of (addActiveEdges es st)"
    by (simp add: index_of_def st1)
  finally show ?thesis .
qed

lemma addActiveEdges_repeated_pair:
  assumes "wf_state st" and "e \<in> set pre"
  shows "index_of (addActiveEdges (pre @ e # post) st) = index_of (addActiveEdges (pre @ post) st)"
proof -
  define m where "m = activeEdges st"
  have b: "arrs_bounded m (store st)"
    using assms(1) by (simp add: wf_state_def m_def)
  have "present m (fold (addEdge m) pre (store st)) e"
    using b assms(2) by (rule fold_addEdge_present)
  then have "addEdge m e (fold (addEdge m) pre (store st)) = fold (addEdge m) pre (store st)"
    by (rule addEdge_present_noop)
  then show ?thesis
    by (simp add: index_of_addActiveEdges m_def)
qed

text \<open>
  C3 (idempotent insert). In every well-formed state, adding a batch twice in a row leaves
  the same contents of the index as adding it once: every key holds the same list. Within a
  batch, a pair that already occurred earlier in the batch changes nothing: the batch with
  the later occurrence and the batch without it leave the same index, so no entry is
  duplicated by it. \<^verbatim>\<open>hasActiveEdge\<close> and \<^verbatim>\<open>hasActiveEdgeConnector\<close> read only the index, so
  their answers agree as well.
\<close>

theorem addActiveEdges_idempotent:
  assumes "wf_state st"
  shows "index_of (addActiveEdges es (addActiveEdges es st)) = index_of (addActiveEdges es st) \<and>
         (e \<in> set pre \<longrightarrow>
            index_of (addActiveEdges (pre @ e # post) st) = index_of (addActiveEdges (pre @ post) st))"
  using assms by (simp add: addActiveEdges_twice addActiveEdges_repeated_pair)

theorem addActiveEdges_idempotent_witness:
  "wf_state init_state \<and>
   index_of (addActiveEdges [(''a'', ''b''), (''a'', ''c'')]
      (addActiveEdges [(''a'', ''b''), (''a'', ''c'')] init_state)) ''a''
     = Some [(''a'', ''b''), (''a'', ''c'')] \<and>
   (''a'', ''b'') \<in> set [(''a'', ''b'')] \<and>
   index_of (addActiveEdges ([(''a'', ''b'')] @ (''a'', ''b'') # [(''a'', ''c'')]) init_state) ''a''
     = Some [(''a'', ''b''), (''a'', ''c'')]"
proof -
  have w: "wf_state init_state"
    by (simp add: wf_state_def arrs_bounded_def init_state_def init_heap_def)
  have once: "index_of (addActiveEdges [(''a'', ''b''), (''a'', ''c'')] init_state) ''a''
      = Some [(''a'', ''b''), (''a'', ''c'')]"
    by (simp add: eval_defs)
  have once': "index_of (addActiveEdges ([(''a'', ''b'')] @ [(''a'', ''c'')]) init_state) ''a''
      = Some [(''a'', ''b''), (''a'', ''c'')]"
    by (simp add: eval_defs)
  from addActiveEdges_idempotent[OF w, of "[(''a'', ''b''), (''a'', ''c'')]" "(''a'', ''b'')"
      "[(''a'', ''b'')]" "[(''a'', ''c'')]"]
  show ?thesis using w once once' by simp
qed

text \<open>
  Every pair of a batch is stored under both of its endpoints after \<^verbatim>\<open>addActiveEdges\<close>, so both
  connectors and the pair itself are reported active.
\<close>

lemma addActiveEdges_stores_under_both_endpoints:
  assumes "wf_state st" and "(l, r) \<in> set es"
  shows "stored_under (index_of (addActiveEdges es st)) l (l, r) \<and>
         stored_under (index_of (addActiveEdges es st)) r (l, r) \<and>
         hasActiveEdgeConnector (index_of (addActiveEdges es st)) l \<and>
         hasActiveEdgeConnector (index_of (addActiveEdges es st)) r \<and>
         checkActiveEdge (addActiveEdges es st) (l, r)"
proof -
  have "arrs_bounded (activeEdges st) (store st)"
    using assms(1) by (simp add: wf_state_def)
  then have "present (activeEdges st) (fold (addEdge (activeEdges st)) es (store st)) (l, r)"
    using assms(2) by (rule fold_addEdge_present)
  then show ?thesis
    unfolding index_of_addActiveEdges checkActiveEdge_def
    by (auto simp: present_def stored_under_def hasActiveEdgeConnector_def hasActiveEdge_def
          index_at_def)
qed

text \<open>
  A pair with equal endpoints: when the key exists, \<^verbatim>\<open>left\<close> and \<^verbatim>\<open>right\<close> are the same array
  object and both duplicate tests are made before either \<^verbatim>\<open>push\<close>, so the pair is pushed twice.
\<close>

lemma addActiveEdges_self_edge:
  "index_of (addActiveEdges [(''a'', ''a'')] (addActiveEdges [(''a'', ''b'')] init_state)) ''a''
     = Some [(''a'', ''b''), (''a'', ''a''), (''a'', ''a'')]"
  by (simp add: eval_defs)

section \<open>Removal: the connections cache and the keys of the index\<close>

lemma removeEdge_connMaps: "connMaps (removeEdge m e h) = connMaps h"
  by (cases e) (simp add: removeEdge_def new_Array_def map_set_def)

lemma fold_removeEdge_connMaps: "connMaps (fold (removeEdge m) es h) = connMaps h"
  by (induction es arbitrary: h) (simp_all add: removeEdge_connMaps)

lemma removeConn_connMaps:
  "connMaps (removeConn c e h) c = (connMaps h c)(fst e := None, snd e := None)"
  by (cases e) (simp add: removeConn_def conn_delete_def)

lemma fold_removeConn_connMaps:
  "connMaps (fold (removeConn c) es h) c k = (if k \<in> endpoints es then None else connMaps h c k)"
proof (induction es arbitrary: h)
  case Nil
  show ?case by (simp add: endpoints_def)
next
  case (Cons e es)
  show ?case
    by (simp add: Cons.IH removeConn_connMaps) (auto simp: endpoints_def)
qed

lemma connections_of_removeActiveEdges:
  "connections_of (removeActiveEdges es st) k =
     (if k \<in> endpoints es then None else connections_of st k)"
  by (simp add: connections_of_def removeActiveEdges_def Let_def new_Map_def new_ConnMap_def
        fold_removeConn_connMaps fold_removeEdge_connMaps split: prod.splits)

lemma endpoints_pair: "(l, r) \<in> set es \<Longrightarrow> l \<in> endpoints es \<and> r \<in> endpoints es"
  by (force simp: endpoints_def)

text \<open>
  C5 (connections cache). After \<^verbatim>\<open>removeActiveEdges\<close> with a batch, the connections map has
  no entry under either endpoint of any pair of the batch, and the entry under every key that
  is not an endpoint of the batch is what it was before.
\<close>

theorem removeActiveEdges_invalidates_connections:
  "(\<forall>(l, r) \<in> set es.
       connections_of (removeActiveEdges es st) l = None \<and>
       connections_of (removeActiveEdges es st) r = None) \<and>
   (\<forall>k. k \<notin> endpoints es \<longrightarrow>
       connections_of (removeActiveEdges es st) k = connections_of st k)"
  by (auto simp: connections_of_removeActiveEdges dest: endpoints_pair)

theorem removeActiveEdges_invalidates_connections_witness:
  "(''a'', ''b'') \<in> set [(''a'', ''b'')] \<and> ''z'' \<notin> endpoints [(''a'', ''b'')] \<and>
   connections_of cached_state ''a'' = Some ([], [''b'']) \<and>
   connections_of (removeActiveEdges [(''a'', ''b'')] cached_state) ''a'' = None \<and>
   connections_of (removeActiveEdges [(''a'', ''b'')] cached_state) ''b'' = None \<and>
   connections_of (removeActiveEdges [(''a'', ''b'')] cached_state) ''z'' = Some ([], [])"
proof -
  have z: "''z'' \<notin> endpoints [(''a'', ''b'')]"
    by (simp add: endpoints_def)
  have before: "connections_of cached_state ''a'' = Some ([], [''b'']) \<and>
      connections_of cached_state ''z'' = Some ([], [])"
    by (simp add: connections_of_def cached_state_def init_state_def init_heap_def)
  from removeActiveEdges_invalidates_connections[of "[(''a'', ''b'')]" cached_state]
  show ?thesis using z before by simp
qed

text \<open>
  C10 (keys of the index under removal). After \<^verbatim>\<open>removeActiveEdges\<close> with a batch, every
  endpoint of the batch is a key of the index, bound to the list it held before (the empty
  list when it was not a key) filtered once for each pair of the batch it is an endpoint of;
  no key is deleted; an endpoint that was not a key is bound to the empty list, so the key
  set can grow.
\<close>

theorem removeActiveEdges_keys:
  assumes "wf_state st"
  shows "(\<forall>c \<in> endpoints es.
            index_of (removeActiveEdges es st) c
              = Some (fold (filter_for c) es (list_of (index_of st) c))) \<and>
         dom (index_of st) \<subseteq> dom (index_of (removeActiveEdges es st)) \<and>
         (\<forall>c \<in> endpoints es. c \<notin> dom (index_of st) \<longrightarrow>
            index_of (removeActiveEdges es st) c = Some [])"
proof -
  have idx: "index_of (removeActiveEdges es st) = fold remove_view es (index_of st)"
    using assms by (rule index_of_removeActiveEdges)
  have d: "dom (index_of (removeActiveEdges es st)) = endpoints es \<union> dom (index_of st)"
    by (simp add: idx fold_remove_view_dom)
  have l: "\<And>c. c \<in> endpoints es \<Longrightarrow>
      index_of (removeActiveEdges es st) c = Some (fold (filter_for c) es (list_of (index_of st) c))"
  proof -
    fix c assume "c \<in> endpoints es"
    then have "c \<in> dom (index_of (removeActiveEdges es st))" by (simp add: d)
    then have "index_of (removeActiveEdges es st) c
        = Some (list_of (index_of (removeActiveEdges es st)) c)"
      by (rule list_of_dom)
    then show "index_of (removeActiveEdges es st) c
        = Some (fold (filter_for c) es (list_of (index_of st) c))"
      by (simp add: idx fold_remove_view_list)
  qed
  have e: "\<And>c. fold (filter_for c) es [] = []"
    by (induction es) (simp_all add: filter_for_def)
  have n: "\<And>c. c \<notin> dom (index_of st) \<Longrightarrow> list_of (index_of st) c = []"
    by (auto simp: list_of_def split: option.splits)
  show ?thesis
    using d by (auto simp: l e n)
qed

theorem removeActiveEdges_keys_witness:
  "wf_state init_state \<and> ''a'' \<in> endpoints [(''a'', ''b'')] \<and> ''a'' \<notin> dom (index_of init_state) \<and>
   index_of (removeActiveEdges [(''a'', ''b'')] init_state) ''a'' = Some [] \<and>
   dom (index_of init_state) \<subseteq> dom (index_of (removeActiveEdges [(''a'', ''b'')] init_state)) \<and>
   dom (index_of init_state) \<noteq> dom (index_of (removeActiveEdges [(''a'', ''b'')] init_state))"
proof -
  have w: "wf_state init_state"
    by (simp add: wf_state_def arrs_bounded_def init_state_def init_heap_def)
  have a: "''a'' \<in> endpoints [(''a'', ''b'')]"
    by (simp add: endpoints_def)
  have n: "''a'' \<notin> dom (index_of init_state)"
    by (simp add: index_of_def index_at_def init_state_def init_heap_def dom_def)
  from removeActiveEdges_keys[OF w, of "[(''a'', ''b'')]"]
  have k: "index_of (removeActiveEdges [(''a'', ''b'')] init_state) ''a'' = Some []"
    and s: "dom (index_of init_state) \<subseteq> dom (index_of (removeActiveEdges [(''a'', ''b'')] init_state))"
    using a n by auto
  from k have "''a'' \<in> dom (index_of (removeActiveEdges [(''a'', ''b'')] init_state))"
    by auto
  with n have "dom (index_of init_state) \<noteq> dom (index_of (removeActiveEdges [(''a'', ''b'')] init_state))"
    by auto
  then show ?thesis using w a n k s by simp
qed

section \<open>Distinct keys hold distinct arrays\<close>

lemma addEdge_separate:
  assumes b: "arrs_bounded m h" and s: "separate m h"
  shows "separate m (addEdge m e h)"
proof -
  obtain l r where e: "e = (l, r)" by (cases e)
  note fresh = bounded_fresh[OF b]
  have inj: "\<And>k1 k2 a. edgeMaps h m k1 = Some a \<Longrightarrow> edgeMaps h m k2 = Some a \<Longrightarrow> k1 = k2"
    using s by (auto simp: separate_def)
  show ?thesis
    unfolding separate_def
    by (auto simp: e addEdge_def get_or_empty_def new_Array_def push_def
          map_set_def Let_def dest: fresh inj split: option.splits if_splits)
qed

lemma addEdge_other:
  assumes b: "arrs_bounded m h" and s: "separate m h" and k: "k \<noteq> fst e" "k \<noteq> snd e"
  shows "index_at (addEdge m e h) m k = index_at h m k"
proof -
  obtain l r where e: "e = (l, r)" by (cases e)
  note fresh = bounded_fresh[OF b]
  have inj: "\<And>k1 k2 a. edgeMaps h m k1 = Some a \<Longrightarrow> edgeMaps h m k2 = Some a \<Longrightarrow> k1 = k2"
    using s by (auto simp: separate_def)
  show ?thesis
  proof (cases "edgeMaps h m k")
    case None
    then show ?thesis using k
      by (auto simp: e index_at_def addEdge_def get_or_empty_def new_Array_def push_def
          map_set_def Let_def split: option.splits)
  next
    case (Some a)
    with fresh[OF Some] show ?thesis using k
      by (auto simp: e index_at_def addEdge_def get_or_empty_def new_Array_def push_def
          map_set_def Let_def dest: inj split: option.splits)
  qed
qed

lemma removeEdge_separate:
  assumes b: "arrs_bounded m h" and s: "separate m h"
  shows "separate m (removeEdge m e h)"
proof -
  obtain l r where e: "e = (l, r)" by (cases e)
  note fresh = bounded_fresh[OF b]
  have inj: "\<And>k1 k2 a. edgeMaps h m k1 = Some a \<Longrightarrow> edgeMaps h m k2 = Some a \<Longrightarrow> k1 = k2"
    using s by (auto simp: separate_def)
  show ?thesis
    unfolding separate_def
    by (auto simp: e removeEdge_def new_Array_def map_set_def dest: fresh inj split: if_splits)
qed

lemma fold_addEdge_separate:
  "arrs_bounded m h \<Longrightarrow> separate m h \<Longrightarrow> separate m (fold (addEdge m) es h)"
  by (induction es arbitrary: h) (simp_all add: addEdge_separate addEdge_bounded)

lemma fold_removeEdge_separate:
  "arrs_bounded m h \<Longrightarrow> separate m h \<Longrightarrow> separate m (fold (removeEdge m) es h)"
  by (induction es arbitrary: h) (simp_all add: removeEdge_separate removeEdge_bounded)

lemma fold_addEdge_other:
  "arrs_bounded m h \<Longrightarrow> separate m h \<Longrightarrow> k \<notin> endpoints es \<Longrightarrow>
   index_at (fold (addEdge m) es h) m k = index_at h m k"
proof (induction es arbitrary: h)
  case Nil
  show ?case by simp
next
  case (Cons e es)
  from Cons.prems(3) have k: "k \<noteq> fst e" "k \<noteq> snd e" "k \<notin> endpoints es"
    by (auto simp: endpoints_def)
  have "index_at (fold (addEdge m) es (addEdge m e h)) m k = index_at (addEdge m e h) m k"
    using Cons.prems(1,2) k(3) by (intro Cons.IH addEdge_bounded addEdge_separate)
  also have "\<dots> = index_at h m k"
    using Cons.prems(1,2) k(1,2) by (rule addEdge_other)
  finally show ?case by simp
qed

section \<open>The mutators keep states well formed\<close>

lemma removeEdge_nxt: "nxt h \<le> nxt (removeEdge m e h)"
  by (cases e) (simp add: removeEdge_def new_Array_def map_set_def)

lemma fold_removeEdge_nxt: "nxt h \<le> nxt (fold (removeEdge m) es h)"
proof (induction es arbitrary: h)
  case Nil
  show ?case by simp
next
  case (Cons e es)
  have "nxt h \<le> nxt (removeEdge m e h)" by (rule removeEdge_nxt)
  also have "\<dots> \<le> nxt (fold (removeEdge m) es (removeEdge m e h))" by (rule Cons.IH)
  finally show ?case by simp
qed

lemma removeActiveEdges_unfold:
  "activeEdges (removeActiveEdges es st)
     = nxt (fold (removeEdge (activeEdges st)) es (store st)) \<and>
   connections (removeActiveEdges es st)
     = Suc (nxt (fold (removeEdge (activeEdges st)) es (store st))) \<and>
   nxt (store (removeActiveEdges es st))
     = Suc (Suc (nxt (fold (removeEdge (activeEdges st)) es (store st)))) \<and>
   arrays (store (removeActiveEdges es st))
     = arrays (fold (removeEdge (activeEdges st)) es (store st)) \<and>
   edgeMaps (store (removeActiveEdges es st))
     = (edgeMaps (fold (removeEdge (activeEdges st)) es (store st)))
         (nxt (fold (removeEdge (activeEdges st)) es (store st))
            := edgeMaps (fold (removeEdge (activeEdges st)) es (store st)) (activeEdges st))"
  by (simp add: removeActiveEdges_def Let_def new_Map_def new_ConnMap_def
        fold_removeConn_frame split: prod.splits)

lemma addActiveEdges_fields:
  "activeEdges (addActiveEdges es st) = nxt (fold (addEdge (activeEdges st)) es (store st)) \<and>
   connections (addActiveEdges es st) = connections st \<and>
   nxt (store (addActiveEdges es st)) = Suc (nxt (fold (addEdge (activeEdges st)) es (store st))) \<and>
   arrays (store (addActiveEdges es st)) = arrays (fold (addEdge (activeEdges st)) es (store st)) \<and>
   edgeMaps (store (addActiveEdges es st))
     = (edgeMaps (fold (addEdge (activeEdges st)) es (store st)))
         (nxt (fold (addEdge (activeEdges st)) es (store st))
            := edgeMaps (fold (addEdge (activeEdges st)) es (store st)) (activeEdges st))"
  by (simp add: addActiveEdges_unfold new_Map_def)

lemma bounded_copy:
  "arrs_bounded m H \<Longrightarrow> nxt h' = Suc (nxt H) \<or> nxt h' = Suc (Suc (nxt H)) \<Longrightarrow>
   edgeMaps h' m' = edgeMaps H m \<Longrightarrow> arrs_bounded m' h'"
  by (fastforce simp: arrs_bounded_def)

lemma separate_copy:
  "separate m H \<Longrightarrow> edgeMaps h' m' = edgeMaps H m \<Longrightarrow> separate m' h'"
  by (simp add: separate_def)

lemma addActiveEdges_inv:
  assumes "reachable_inv st"
  shows "reachable_inv (addActiveEdges es st)"
proof -
  define m where "m = activeEdges st"
  define H where "H = fold (addEdge m) es (store st)"
  have b: "arrs_bounded m (store st)" and s: "separate m (store st)"
    and c: "connections st < nxt (store st)"
    using assms by (simp_all add: reachable_inv_def wf_state_def m_def)
  have bH: "arrs_bounded m H" and sH: "separate m H"
    unfolding H_def using b s by (simp_all add: fold_addEdge_bounded fold_addEdge_separate)
  have n: "nxt (store st) \<le> nxt H"
    unfolding H_def by (rule fold_addEdge_nxt)
  note f = addActiveEdges_fields[of es st, folded m_def, folded H_def]
  have e: "edgeMaps (store (addActiveEdges es st)) (activeEdges (addActiveEdges es st))
      = edgeMaps H m"
    by (simp add: f)
  have "arrs_bounded (activeEdges (addActiveEdges es st)) (store (addActiveEdges es st))"
    using bH _ e by (rule bounded_copy) (simp add: f)
  moreover have "separate (activeEdges (addActiveEdges es st)) (store (addActiveEdges es st))"
    using sH e by (rule separate_copy)
  ultimately show ?thesis
    using c n by (simp add: reachable_inv_def wf_state_def f)
qed

lemma removeActiveEdges_inv:
  assumes "reachable_inv st"
  shows "reachable_inv (removeActiveEdges es st)"
proof -
  define m where "m = activeEdges st"
  define H where "H = fold (removeEdge m) es (store st)"
  have b: "arrs_bounded m (store st)" and s: "separate m (store st)"
    using assms by (simp_all add: reachable_inv_def wf_state_def m_def)
  have bH: "arrs_bounded m H" and sH: "separate m H"
    unfolding H_def using b s by (simp_all add: fold_removeEdge_bounded fold_removeEdge_separate)
  note f = removeActiveEdges_unfold[of es st, folded m_def, folded H_def]
  have e: "edgeMaps (store (removeActiveEdges es st)) (activeEdges (removeActiveEdges es st))
      = edgeMaps H m"
    by (simp add: f)
  have "arrs_bounded (activeEdges (removeActiveEdges es st)) (store (removeActiveEdges es st))"
    using bH _ e by (rule bounded_copy) (simp add: f)
  moreover have "separate (activeEdges (removeActiveEdges es st)) (store (removeActiveEdges es st))"
    using sH e by (rule separate_copy)
  ultimately show ?thesis
    by (simp add: reachable_inv_def wf_state_def f)
qed

lemma init_inv: "reachable_inv init_state"
  by (simp add: reachable_inv_def wf_state_def arrs_bounded_def separate_def init_state_def
        init_heap_def)

lemma run_inv: "reachable_inv st \<Longrightarrow> reachable_inv (run ms st)"
  unfolding run_def
proof (induction ms arbitrary: st)
  case Nil
  then show ?case by simp
next
  case (Cons mu ms)
  from Cons.prems have "reachable_inv (mutate mu st)"
    by (cases mu) (simp_all add: addActiveEdges_inv removeActiveEdges_inv)
  then show ?case by (simp add: Cons.IH)
qed

section \<open>A connector that no batch adds stays without edges\<close>

lemma fold_filter_for_Nil: "fold (filter_for k) es [] = []"
  by (induction es) (simp_all add: filter_for_def)

lemma mutate_idle:
  assumes i: "reachable_inv st" and k: "k \<notin> endpoints (added_edges mu)"
    and l: "list_of (index_of st) k = []"
  shows "list_of (index_of (mutate mu st)) k = []"
proof (cases mu)
  case (AddActiveEdges es)
  from i have b: "arrs_bounded (activeEdges st) (store st)"
    and s: "separate (activeEdges st) (store st)"
    by (simp_all add: reachable_inv_def wf_state_def)
  from k have "k \<notin> endpoints es" by (simp add: AddActiveEdges)
  with b s have "index_at (fold (addEdge (activeEdges st)) es (store st)) (activeEdges st) k
      = index_at (store st) (activeEdges st) k"
    by (rule fold_addEdge_other)
  then have "index_of (addActiveEdges es st) k = index_of st k"
    unfolding index_of_addActiveEdges by (simp add: index_of_def)
  with l show ?thesis by (simp add: AddActiveEdges list_of_def)
next
  case (RemoveActiveEdges es)
  from i have "wf_state st" by (simp add: reachable_inv_def)
  then have "index_of (removeActiveEdges es st) = fold remove_view es (index_of st)"
    by (rule index_of_removeActiveEdges)
  with l show ?thesis
    by (simp add: RemoveActiveEdges fold_remove_view_list fold_filter_for_Nil)
qed

lemma run_idle:
  "reachable_inv st \<Longrightarrow> list_of (index_of st) k = [] \<Longrightarrow>
   (\<And>mu. mu \<in> set ms \<Longrightarrow> k \<notin> endpoints (added_edges mu)) \<Longrightarrow>
   list_of (index_of (run ms st)) k = []"
  unfolding run_def
proof (induction ms arbitrary: st)
  case Nil
  then show ?case by simp
next
  case (Cons mu ms)
  have i: "reachable_inv (mutate mu st)"
    using Cons.prems(1) by (cases mu) (simp_all add: addActiveEdges_inv removeActiveEdges_inv)
  have l: "list_of (index_of (mutate mu st)) k = []"
    using Cons.prems by (intro mutate_idle) simp_all
  show ?case
    using i l Cons.prems(3) by (simp add: Cons.IH)
qed

lemma hasActiveEdgeConnector_list:
  "hasActiveEdgeConnector idx k \<longleftrightarrow> list_of idx k \<noteq> []"
  by (simp add: hasActiveEdgeConnector_def list_of_def split: option.splits)

lemma init_idle: "list_of (index_of init_state) k = []"
  by (simp add: list_of_def index_of_def index_at_def init_state_def init_heap_def)

text \<open>
  C4 (active column). \<^verbatim>\<open>isActiveColumn\<close> is true exactly when the left or the right connector
  of the column has an incident edge in the index, that is, when the index binds one of the
  two connectors to a non-empty list. In particular it is false in every state reached from
  the initial one by mutations none of whose added batches mentions either connector.
\<close>

theorem isActiveColumn_iff:
  "(isActiveColumn toID st modelName columnName \<longleftrightarrow>
      hasActiveEdgeConnector (index_of st) (toID Left modelName columnName) \<or>
      hasActiveEdgeConnector (index_of st) (toID Right modelName columnName)) \<and>
   (hasActiveEdgeConnector (index_of st) k \<longleftrightarrow> (\<exists>e es. index_of st k = Some (e # es))) \<and>
   ((\<forall>mu \<in> set ms. toID Left modelName columnName \<notin> endpoints (added_edges mu) \<and>
                    toID Right modelName columnName \<notin> endpoints (added_edges mu)) \<longrightarrow>
      \<not> isActiveColumn toID (run ms init_state) modelName columnName)"
proof (intro conjI impI)
  show "isActiveColumn toID st modelName columnName \<longleftrightarrow>
      hasActiveEdgeConnector (index_of st) (toID Left modelName columnName) \<or>
      hasActiveEdgeConnector (index_of st) (toID Right modelName columnName)"
    by (simp add: isActiveColumn_def)
  show "hasActiveEdgeConnector (index_of st) k \<longleftrightarrow> (\<exists>e es. index_of st k = Some (e # es))"
    by (auto simp: hasActiveEdgeConnector_def neq_Nil_conv split: option.splits)
  assume a: "\<forall>mu \<in> set ms. toID Left modelName columnName \<notin> endpoints (added_edges mu) \<and>
                    toID Right modelName columnName \<notin> endpoints (added_edges mu)"
  have "list_of (index_of (run ms init_state)) (toID Left modelName columnName) = []"
    using init_inv init_idle a by (intro run_idle) simp_all
  moreover have "list_of (index_of (run ms init_state)) (toID Right modelName columnName) = []"
    using init_inv init_idle a by (intro run_idle) simp_all
  ultimately show "\<not> isActiveColumn toID (run ms init_state) modelName columnName"
    by (simp add: isActiveColumn_def hasActiveEdgeConnector_list)
qed

theorem isActiveColumn_iff_witness:
  "sample_toID Left ''A'' ''col3''
      \<notin> endpoints [(sample_toID Left ''A'' ''col1'', sample_toID Right ''B'' ''col2'')] \<and>
   sample_toID Right ''A'' ''col3''
      \<notin> endpoints [(sample_toID Left ''A'' ''col1'', sample_toID Right ''B'' ''col2'')] \<and>
   \<not> isActiveColumn sample_toID
      (run [AddActiveEdges [(sample_toID Left ''A'' ''col1'', sample_toID Right ''B'' ''col2'')]]
         init_state) ''A'' ''col3'' \<and>
   isActiveColumn sample_toID
      (run [AddActiveEdges [(sample_toID Left ''A'' ''col1'', sample_toID Right ''B'' ''col2'')]]
         init_state) ''A'' ''col1''"
proof -
  let ?e = "(sample_toID Left ''A'' ''col1'', sample_toID Right ''B'' ''col2'')"
  have l: "sample_toID Left ''A'' ''col3'' \<notin> endpoints [?e]"
    and r: "sample_toID Right ''A'' ''col3'' \<notin> endpoints [?e]"
    by (simp_all add: sample_toID_def endpoints_def)
  have h: "\<forall>mu \<in> set [AddActiveEdges [?e]].
      sample_toID Left ''A'' ''col3'' \<notin> endpoints (added_edges mu) \<and>
      sample_toID Right ''A'' ''col3'' \<notin> endpoints (added_edges mu)"
    using l r by simp
  have a: "hasActiveEdgeConnector (index_of (run [AddActiveEdges [?e]] init_state))
      (sample_toID Left ''A'' ''col1'')"
    by (simp add: eval_defs query_defs)
  from isActiveColumn_iff[of sample_toID "run [AddActiveEdges [?e]] init_state" "''A''" "''col1''"]
  have t: "isActiveColumn sample_toID (run [AddActiveEdges [?e]] init_state) ''A'' ''col1''"
    using a by blast
  from isActiveColumn_iff[of sample_toID _ "''A''" "''col3''" _ "[AddActiveEdges [?e]]"] h
  have "\<not> isActiveColumn sample_toID (run [AddActiveEdges [?e]] init_state) ''A'' ''col3''"
    by blast
  with l r t show ?thesis by blast
qed

section \<open>The previous snapshot\<close>

text \<open>
  C9 as stated fails: the map object of the initial snapshot has no key \<^verbatim>\<open>a\<close>; after
  \<^verbatim>\<open>addActiveEdges\<close> the same object, read through the old reference, binds \<^verbatim>\<open>a\<close> to a list.
\<close>

theorem previous_snapshot_counterexample:
  "index_at (store (addActiveEdges [(''a'', ''b'')] init_state)) (activeEdges init_state) ''a''
     \<noteq> index_at (store init_state) (activeEdges init_state) ''a''"
  by (simp add: eval_defs)

text \<open>
  C9, amended (snapshots). Each mutator returns a newly allocated map object, so the reference
  in the state changes; but it updates the map object of the previous snapshot in place
  before copying it, so after the call the previous reference reads the same per-key lists
  as the new one.
\<close>

theorem previous_snapshot_updated_in_place:
  assumes "wf_state st"
  shows "activeEdges (addActiveEdges es st) \<noteq> activeEdges st \<and>
         index_at (store (addActiveEdges es st)) (activeEdges st)
           = index_of (addActiveEdges es st) \<and>
         activeEdges (removeActiveEdges es st) \<noteq> activeEdges st \<and>
         index_at (store (removeActiveEdges es st)) (activeEdges st)
           = index_of (removeActiveEdges es st)"
proof -
  define m where "m = activeEdges st"
  define A where "A = fold (addEdge m) es (store st)"
  define R where "R = fold (removeEdge m) es (store st)"
  have lt: "m < nxt (store st)"
    using assms by (simp add: wf_state_def m_def)
  have "nxt (store st) \<le> nxt A" unfolding A_def by (rule fold_addEdge_nxt)
  with lt have a: "m \<noteq> nxt A" by simp
  have "nxt (store st) \<le> nxt R" unfolding R_def by (rule fold_removeEdge_nxt)
  with lt have r: "m \<noteq> nxt R" by simp
  note fa = addActiveEdges_fields[of es st, folded m_def, folded A_def]
  note fr = removeActiveEdges_unfold[of es st, folded m_def, folded R_def]
  show ?thesis
    unfolding index_of_def m_def[symmetric]
    using a r by (simp add: fa fr index_at_def)
qed

theorem previous_snapshot_updated_in_place_witness:
  "wf_state init_state \<and>
   activeEdges (addActiveEdges [(''a'', ''b'')] init_state) \<noteq> activeEdges init_state \<and>
   index_at (store (addActiveEdges [(''a'', ''b'')] init_state)) (activeEdges init_state) ''a''
     = Some [(''a'', ''b'')] \<and>
   index_of (addActiveEdges [(''a'', ''b'')] init_state) ''a'' = Some [(''a'', ''b'')]"
proof -
  have i: "index_of (addActiveEdges [(''a'', ''b'')] init_state) ''a'' = Some [(''a'', ''b'')]"
    by (simp add: eval_defs)
  from previous_snapshot_updated_in_place[OF wf_init, of "[(''a'', ''b'')]"]
  show ?thesis using wf_init i by simp
qed

section \<open>Removal drops more than the requested pair\<close>

text \<open>
  C1 (exact-match removal) on the code: after adding \<^verbatim>\<open>(a,b)\<close> and \<^verbatim>\<open>(a,c)\<close>, removing \<^verbatim>\<open>(a,b)\<close>
  leaves the empty list under \<^verbatim>\<open>a\<close>. The filter keeps a stored pair only when its first
  component differs from \<^verbatim>\<open>a\<close> and its second differs from \<^verbatim>\<open>b\<close>, so \<^verbatim>\<open>(a,c)\<close> is dropped from
  the list of \<^verbatim>\<open>a\<close> as well. The pair \<^verbatim>\<open>(a,c)\<close> is still found through the list of \<^verbatim>\<open>c\<close>.
\<close>

theorem removeActiveEdges_drops_sibling:
  "index_of (addActiveEdges [(''a'', ''b''), (''a'', ''c'')] init_state) ''a''
     = Some [(''a'', ''b''), (''a'', ''c'')] \<and>
   index_of (removeActiveEdges [(''a'', ''b'')]
       (addActiveEdges [(''a'', ''b''), (''a'', ''c'')] init_state)) ''a'' = Some [] \<and>
   \<not> hasActiveEdgeConnector (index_of (removeActiveEdges [(''a'', ''b'')]
       (addActiveEdges [(''a'', ''b''), (''a'', ''c'')] init_state))) ''a'' \<and>
   checkActiveEdge (removeActiveEdges [(''a'', ''b'')]
       (addActiveEdges [(''a'', ''b''), (''a'', ''c'')] init_state)) (''a'', ''c'')"
  by (simp add: eval_defs query_defs)

text \<open>
  C2 (bidirectional consistency) on the code: after the same run the pair \<^verbatim>\<open>(a,c)\<close> is stored
  under \<^verbatim>\<open>c\<close> and not under \<^verbatim>\<open>a\<close>.
\<close>

theorem removeActiveEdges_breaks_mirroring:
  "stored_under (index_of (removeActiveEdges [(''a'', ''b'')]
       (addActiveEdges [(''a'', ''b''), (''a'', ''c'')] init_state))) ''c'' (''a'', ''c'') \<and>
   \<not> stored_under (index_of (removeActiveEdges [(''a'', ''b'')]
       (addActiveEdges [(''a'', ''b''), (''a'', ''c'')] init_state))) ''a'' (''a'', ''c'')"
  by (simp add: eval_defs query_defs)

text \<open>
  C6 (removal of an absent pair) on the code: with only \<^verbatim>\<open>(a,c)\<close> in the index, the pair
  \<^verbatim>\<open>(a,b)\<close> is absent; removing it empties the list of \<^verbatim>\<open>a\<close>, so the answer for the connector
  \<^verbatim>\<open>a\<close> changes from true to false.
\<close>

theorem removeActiveEdges_absent_pair_changes_answers:
  "\<not> checkActiveEdge (addActiveEdges [(''a'', ''c'')] init_state) (''a'', ''b'') \<and>
   hasActiveEdgeConnector (index_of (addActiveEdges [(''a'', ''c'')] init_state)) ''a'' \<and>
   \<not> hasActiveEdgeConnector (index_of (removeActiveEdges [(''a'', ''b'')]
       (addActiveEdges [(''a'', ''c'')] init_state))) ''a''"
  by (simp add: eval_defs query_defs)

section \<open>The selected edges\<close>

lemma flat_append: "flat (xs @ ys) = flat xs @ flat ys"
  by (induction xs rule: flat.induct) simp_all

lemma selectedEdges_append:
  "selectedEdges (xs @ ys) nc = selectedEdges xs nc @ selectedEdges ys nc"
  by (simp add: selectedEdges_def flat_append)

lemma selectedEdges_Cons:
  "selectedEdges (ident # rest) nc = flat [lookup nc ident] @ selectedEdges rest nc"
  using selectedEdges_append[of "[ident]" rest nc] by (simp add: selectedEdges_def)

text \<open>
  An id that is neither a key of the record nor a property name of \<^verbatim>\<open>Object.prototype\<close>
  contributes the single element \<^verbatim>\<open>undefined\<close> at its position.
\<close>

lemma selectedEdges_absent_own:
  assumes "nodesConnections ident = None" and "ident \<notin> set Object_prototype"
  shows "selectedEdges (pre @ ident # post) nodesConnections
           = selectedEdges pre nodesConnections @ JSUndefined # selectedEdges post nodesConnections"
  using assms by (simp add: selectedEdges_def flat_append lookup_def)

text \<open>
  C7 (absent nodes) on the code: with the node \<^verbatim>\<open>A\<close> present and the selected id \<^verbatim>\<open>X\<close> absent
  from \<^verbatim>\<open>nodesConnections\<close>, the result holds the element \<^verbatim>\<open>undefined\<close> after the record of
  \<^verbatim>\<open>A\<close>, so it differs from the result without \<^verbatim>\<open>X\<close>; and the absent id \<^verbatim>\<open>constructor\<close>
  contributes the member of \<^verbatim>\<open>Object.prototype\<close> of that name. Neither is a
  \<^verbatim>\<open>ConnectedNode\<close>, which the non-null assertion and the type of \<^verbatim>\<open>selectedEdges\<close> promise.
\<close>

theorem selectedEdges_absent_contributes:
  "[''A'' \<mapsto> JSObject ''a''] ''X'' = None \<and>
   selectedEdges [''A'', ''X''] [''A'' \<mapsto> JSObject ''a''] = [JSObject ''a'', JSUndefined] \<and>
   selectedEdges [''A'', ''X''] [''A'' \<mapsto> JSObject ''a'']
     \<noteq> selectedEdges [''A''] [''A'' \<mapsto> JSObject ''a''] \<and>
   selectedEdges [''A'', ''constructor''] [''A'' \<mapsto> JSObject ''a'']
     = [JSObject ''a'', JSInherited ''constructor'']"
  by (simp add: selectedEdges_def lookup_def Object_prototype_def)

text \<open>
  C8 as stated fails: the node \<^verbatim>\<open>A\<close> is present and its value is a record, as the declared
  types have it. The result is that one record; it is not the concatenation of looked-up
  lists.
\<close>

theorem selectedEdges_concat_counterexample:
  "[''A'' \<mapsto> JSObject ''a''] ''A'' = Some (JSObject ''a'') \<and>
   selectedEdges [''A''] [''A'' \<mapsto> JSObject ''a''] = [JSObject ''a''] \<and>
   selectedEdges [''A''] [''A'' \<mapsto> JSObject ''a'']
     \<noteq> concat (map (incident [''A'' \<mapsto> JSObject ''a'']) [''A''])"
  by (simp add: selectedEdges_def lookup_def incident_def)

text \<open>
  C8, amended (selected edges). For every selection set whose ids are all keys of
  \<^verbatim>\<open>nodesConnections\<close>, \<^verbatim>\<open>selectedEdges\<close> is, in the order of the selection, the value stored for
  each selected id: a value that is an array is replaced by its elements in their own order
  (one level), and any other value, such as a node record, is kept as one element.
\<close>

theorem selectedEdges_present:
  assumes "distinct selectedNodes"
    and "\<forall>ident \<in> set selectedNodes. ident \<in> dom nodesConnections"
  shows "selectedEdges selectedNodes nodesConnections
           = concat (map (contribution nodesConnections) selectedNodes)"
  using assms
proof (induction selectedNodes)
  case Nil
  show ?case by (simp add: selectedEdges_def)
next
  case (Cons ident rest)
  from Cons.prems obtain v where v: "nodesConnections ident = Some v"
    by auto
  have ih: "selectedEdges rest nodesConnections
      = concat (map (contribution nodesConnections) rest)"
    using Cons.prems by (intro Cons.IH) simp_all
  have "flat [lookup nodesConnections ident] = contribution nodesConnections ident"
    using v by (cases v) (simp_all add: lookup_def contribution_def)
  then show ?case
    by (simp add: selectedEdges_Cons ih)
qed

theorem selectedEdges_present_witness:
  "distinct [''B'', ''A''] \<and>
   ''A'' \<in> dom [''A'' \<mapsto> JSObject ''a'', ''B'' \<mapsto> JSArray [JSObject ''x'', JSObject ''y'']] \<and>
   ''B'' \<in> dom [''A'' \<mapsto> JSObject ''a'', ''B'' \<mapsto> JSArray [JSObject ''x'', JSObject ''y'']] \<and>
   selectedEdges [''B'', ''A'']
      [''A'' \<mapsto> JSObject ''a'', ''B'' \<mapsto> JSArray [JSObject ''x'', JSObject ''y'']]
     = [JSObject ''x'', JSObject ''y'', JSObject ''a'']"
proof -
  let ?nc = "[''A'' \<mapsto> JSObject ''a'', ''B'' \<mapsto> JSArray [JSObject ''x'', JSObject ''y'']]"
  have d: "distinct [''B'', ''A'']" by simp
  have a: "''A'' \<in> dom ?nc" and b: "''B'' \<in> dom ?nc" by simp_all
  then have h: "\<forall>ident \<in> set [''B'', ''A'']. ident \<in> dom ?nc" by simp
  have "selectedEdges [''B'', ''A''] ?nc = concat (map (contribution ?nc) [''B'', ''A''])"
    using d h by (rule selectedEdges_present)
  also have "\<dots> = [JSObject ''x'', JSObject ''y'', JSObject ''a'']"
    by (simp add: contribution_def)
  finally show ?thesis using d a b by blast
qed

end
